theory Spec2Isabelle
  imports Main "HOL-Library.AList" "HOL-Library.Sublist" "HOL-Library.Char_ord"
    "HOL-Library.List_Lexorder"
begin

section \<open>The key-value store the programs run against\<close>

text \<open>
  Modelled from the spec: the external key-value store (the etcd server behind
  \<^verbatim>\<open>go.etcd.io/etcd/client/v3\<close>), which is not part of the repository. Its
  interface is the one of section 6 of the specification: Put, Get by prefix, Delete, an
  atomic compare-and-branch Transaction, Grant and Revoke of leases, and Watch. Keys are
  ordered, every mutation gets the next revision, a key that does not exist has creation
  revision 0, the keys bound to a lease are deleted when the lease is revoked or expires, and
  every mutation of a key is recorded as a Put or Delete event for the watchers.

  Time is not modelled: the expiry of a lease is an action of the store that may happen at
  any moment (\<open>lease_expire\<close>). A transport failure of a call is an input of the
  calling function: such a call returns \<open>ErrConn\<close> and leaves the store as it was.
\<close>

type_synonym LeaseID = int

definition NoLease :: LeaseID where
  "NoLease = 0"

text \<open>
  Modelled from the spec: a record of the store (sections 3 and 6), which is missing from
  the sources: its value, the revision at which the key was created, and the lease it is
  bound to (\<open>NoLease\<close> for none).
\<close>

record KeyValue =
  Value :: string
  CreateRevision :: int
  Lease :: LeaseID

text \<open>
  Modelled from the spec: a watch event (section 3), missing from the sources: the type of
  the event and the key and value it is about.
\<close>

datatype EventType = EventTypePut | EventTypeDelete

record Event =
  Type :: EventType
  EvKey :: string
  EvValue :: string

text \<open>
  The errors: a transport error of a store call, the store's refusal of a lease it does not
  know, and the errors the programs make themselves.
\<close>

datatype error =
    ErrConn
  | ErrLeaseNotFound
  | ErrServiceNotFound
  | ErrEmptyEndpoints
  | ErrIndexOutOfRange

text \<open>
  Modelled from the spec: the state of the store (sections 3 and 6 and the glossary), missing
  from the sources: the records by key, the revision counter, the live leases, the next
  lease identifier, and the events of all mutations so far.
\<close>

record etcd =
  kvs :: "(string \<times> KeyValue) list"
  revision :: int
  leases :: "LeaseID list"
  nextLease :: LeaseID
  history :: "Event list"

definition new_store :: etcd where
  "new_store = \<lparr>kvs = [], revision = 1, leases = [], nextLease = 1, history = []\<rparr>"

definition lookup :: "string \<Rightarrow> etcd \<Rightarrow> KeyValue option" where
  "lookup k st = map_of (kvs st) k"

definition create_revision :: "string \<Rightarrow> etcd \<Rightarrow> int" where
  "create_revision k st = (case lookup k st of None \<Rightarrow> 0 | Some e \<Rightarrow> CreateRevision e)"

text \<open>
  Modelled from the spec: \<open>Grant(ttlSeconds) -> LeaseID\<close> (section 6), missing from
  the sources. The store issues an identifier it has not issued before.
\<close>

definition lease_grant :: "int \<Rightarrow> etcd \<Rightarrow> LeaseID \<times> etcd" where
  "lease_grant ttl st =
     (nextLease st, st\<lparr>leases := nextLease st # leases st, nextLease := nextLease st + 1\<rparr>)"

text \<open>
  Modelled from the spec: \<open>Put(key, value, opts)\<close> (section 6), missing from the
  sources. A put on a lease that is not live is refused (section 7, an operation on an
  expired or unknown lease). A new key is created at the new revision; an existing key keeps
  its creation revision.
\<close>

definition store_put :: "string \<Rightarrow> string \<Rightarrow> LeaseID \<Rightarrow> etcd \<Rightarrow> error + etcd" where
  "store_put k v l st =
     (if l \<noteq> NoLease \<and> l \<notin> set (leases st) then Inl ErrLeaseNotFound
      else
        let rev = revision st + 1;
            cr = (case lookup k st of None \<Rightarrow> rev | Some e \<Rightarrow> CreateRevision e)
        in Inr (st\<lparr>kvs := AList.update k \<lparr>Value = v, CreateRevision = cr, Lease = l\<rparr> (kvs st),
                   revision := rev,
                   history := history st @ [\<lparr>Type = EventTypePut, EvKey = k, EvValue = v\<rparr>]\<rparr>))"

text \<open>
  Modelled from the spec: \<open>Delete(key)\<close> (section 6), missing from the sources.
  Deleting a key that does not exist changes nothing and makes no event.
\<close>

definition store_delete :: "string \<Rightarrow> etcd \<Rightarrow> etcd" where
  "store_delete k st =
     (case lookup k st of
        None \<Rightarrow> st
      | Some e \<Rightarrow>
          st\<lparr>kvs := AList.delete k (kvs st),
             revision := revision st + 1,
             history := history st @ [\<lparr>Type = EventTypeDelete, EvKey = k, EvValue = []\<rparr>]\<rparr>)"

text \<open>
  Modelled from the spec: the end of a lease, by expiry or by \<open>Revoke(LeaseID)\<close>
  (sections 3, 4.1 and 6), missing from the sources: the store deletes all keys bound to the
  lease. Revoking a lease the store does not know is an error of the store.
\<close>

definition bound_keys :: "LeaseID \<Rightarrow> etcd \<Rightarrow> string list" where
  "bound_keys l st = map fst (filter (\<lambda>(k, e). Lease e = l) (kvs st))"

definition lease_expire :: "LeaseID \<Rightarrow> etcd \<Rightarrow> etcd" where
  "lease_expire l st =
     (if l \<notin> set (leases st) then st
      else
        let ks = bound_keys l st
        in st\<lparr>kvs := filter (\<lambda>(k, e). Lease e \<noteq> l) (kvs st),
              revision := (if ks = [] then revision st else revision st + 1),
              leases := removeAll l (leases st),
              history := history st @
                map (\<lambda>k. \<lparr>Type = EventTypeDelete, EvKey = k, EvValue = []\<rparr>) ks\<rparr>)"

definition lease_revoke :: "LeaseID \<Rightarrow> etcd \<Rightarrow> error + etcd" where
  "lease_revoke l st =
     (if l \<notin> set (leases st) then Inl ErrLeaseNotFound else Inr (lease_expire l st))"

text \<open>
  Modelled from the spec: \<open>Get(key|prefix)\<close> (section 6), missing from the sources:
  the records whose key starts with the prefix, in the order of the keys.
\<close>

definition store_get_prefix :: "string \<Rightarrow> etcd \<Rightarrow> (string \<times> KeyValue) list" where
  "store_get_prefix p st = sort_key fst (filter (\<lambda>(k, e). prefix p k) (kvs st))"

text \<open>
  Modelled from the spec: \<open>Transaction({conditions}, {then-ops}, {else-ops}) ->
  {succeeded, results}\<close>, the atomic compare-and-branch (section 6 and the glossary),
  missing from the sources. The comparisons are on creation revisions, evaluated on the store
  as it is; the operations of the chosen branch are applied, and if one of them is refused
  the transaction fails and nothing is written.
\<close>

datatype CmpResult = CmpEqual | CmpNotEqual | CmpGreater | CmpLess

datatype Cmp = Compare string CmpResult int

datatype Op = OpPut string string LeaseID | OpDelete string

record TxnResponse =
  Succeeded :: bool

fun eval_cmp :: "etcd \<Rightarrow> Cmp \<Rightarrow> bool" where
  "eval_cmp st (Compare k CmpEqual v) = (create_revision k st = v)"
| "eval_cmp st (Compare k CmpNotEqual v) = (create_revision k st \<noteq> v)"
| "eval_cmp st (Compare k CmpGreater v) = (create_revision k st > v)"
| "eval_cmp st (Compare k CmpLess v) = (create_revision k st < v)"

fun apply_op :: "Op \<Rightarrow> etcd \<Rightarrow> error + etcd" where
  "apply_op (OpPut k v l) st = store_put k v l st"
| "apply_op (OpDelete k) st = Inr (store_delete k st)"

fun apply_ops :: "Op list \<Rightarrow> etcd \<Rightarrow> error + etcd" where
  "apply_ops [] st = Inr st"
| "apply_ops (x # xs) st =
     (case apply_op x st of Inl e \<Rightarrow> Inl e | Inr st' \<Rightarrow> apply_ops xs st')"

definition store_txn :: "Cmp list \<Rightarrow> Op list \<Rightarrow> Op list \<Rightarrow> etcd \<Rightarrow> error + (TxnResponse \<times> etcd)"
  where
  "store_txn cmps thn els st =
     (let ok = list_all (eval_cmp st) cmps
      in case apply_ops (if ok then thn else els) st of
           Inl e \<Rightarrow> Inl e
         | Inr st' \<Rightarrow> Inr (\<lparr>Succeeded = ok\<rparr>, st'))"

section \<open>Service registration (service_registry/registry.go)\<close>

text \<open>
  The calls a client makes to the store. \<open>fails c\<close> says that call \<open>c\<close> returns a
  transport error in the run that is modelled; a closed client fails every call.
\<close>

datatype rpc = RpcGrant | RpcPut | RpcKeepAlive | RpcRevoke | RpcClose | RpcGet

record Client =
  closed :: bool
  keepAlives :: "LeaseID list"

record Service =
  Name :: string
  Addr :: string

record RegistryEtcd =
  client :: Client
  leaseID :: LeaseID
  leaseTTL :: int
  leaseKeepAliveRespCh :: "LeaseID option"

definition LeaseTTL :: int where
  "LeaseTTL = 5"

definition NewEtcdRegistry :: "bool \<Rightarrow> string list \<Rightarrow> int \<Rightarrow> error + RegistryEtcd" where
  "NewEtcdRegistry dial_fails endpoints ttl =
     (if length endpoints = 0 then Inl ErrEmptyEndpoints
      else if dial_fails then Inl ErrConn
      else Inr \<lparr>client = \<lparr>closed = False, keepAlives = []\<rparr>, leaseID = 0, leaseTTL = ttl,
                leaseKeepAliveRespCh = None\<rparr>)"

text \<open>
  \<open>Registry\<close>: grant a lease, store it in \<open>leaseID\<close>, put the record under the name,
  a dash and the string of a new UUID (the argument \<open>uuid\<close>), bound to the lease, and start
  the renewal. Each error returns at once. The result is the error (if any), the registry
  and the store.
\<close>

definition Registry ::
  "(rpc \<Rightarrow> bool) \<Rightarrow> string \<Rightarrow> Service \<Rightarrow> RegistryEtcd \<Rightarrow> etcd \<Rightarrow> error option \<times> RegistryEtcd \<times> etcd"
  where
  "Registry fails uuid service r st =
     (if closed (client r) \<or> fails RpcGrant then (Some ErrConn, r, st)
      else
        let (grantID, st1) = lease_grant (leaseTTL r) st;
            r1 = r\<lparr>leaseID := grantID\<rparr>;
            serviceName = Name service @ ''-'' @ uuid
        in if fails RpcPut then (Some ErrConn, r1, st1)
           else
             case store_put serviceName (Addr service) (leaseID r1) st1 of
               Inl e \<Rightarrow> (Some e, r1, st1)
             | Inr st2 \<Rightarrow>
                 if fails RpcKeepAlive
                 then (Some ErrConn, r1\<lparr>leaseKeepAliveRespCh := None\<rparr>, st2)
                 else (None,
                       r1\<lparr>leaseKeepAliveRespCh := Some (leaseID r1),
                          client := (client r1)\<lparr>keepAlives := leaseID r1 # keepAlives (client r1)\<rparr>\<rparr>,
                       st2))"

text \<open>
  \<open>DeRegistry\<close>: revoke the lease in \<open>leaseID\<close>, then close the client.
\<close>

definition DeRegistry ::
  "(rpc \<Rightarrow> bool) \<Rightarrow> RegistryEtcd \<Rightarrow> etcd \<Rightarrow> error option \<times> RegistryEtcd \<times> etcd"
  where
  "DeRegistry fails r st =
     (if closed (client r) \<or> fails RpcRevoke then (Some ErrConn, r, st)
      else
        case lease_revoke (leaseID r) st of
          Inl e \<Rightarrow> (Some e, r, st)
        | Inr st1 \<Rightarrow>
            if fails RpcClose then (Some ErrConn, r, st1)
            else (None, r\<lparr>client := \<lparr>closed = True, keepAlives = []\<rparr>\<rparr>, st1))"

section \<open>Service discovery (service_registry/discovery.go)\<close>

record DiscoveryEtcd =
  dclient :: Client

definition NewEtcdDiscovery :: "bool \<Rightarrow> string list \<Rightarrow> error + DiscoveryEtcd" where
  "NewEtcdDiscovery dial_fails endpoints =
     (if length endpoints = 0 then Inl ErrEmptyEndpoints
      else if dial_fails then Inl ErrConn
      else Inr \<lparr>dclient = \<lparr>closed = False, keepAlives = []\<rparr>\<rparr>)"

text \<open>
  \<open>GetServiceAddr\<close>: read every record whose key starts with the name; no record is the
  error "service not found"; otherwise the value of the record at index
  \<open>rand.Intn(len(resp.Kvs))\<close>. The argument \<open>Intn\<close> is the random source at this call.
  Indexing out of range panics in Go (\<open>ErrIndexOutOfRange\<close>).
\<close>

definition GetServiceAddr ::
  "(rpc \<Rightarrow> bool) \<Rightarrow> (nat \<Rightarrow> nat) \<Rightarrow> string \<Rightarrow> DiscoveryEtcd \<Rightarrow> etcd \<Rightarrow> error + string"
  where
  "GetServiceAddr fails Intn name d st =
     (if closed (dclient d) \<or> fails RpcGet then Inl ErrConn
      else
        let Kvs = store_get_prefix name st
        in if length Kvs = 0 then Inl ErrServiceNotFound
           else
             let randIndex = Intn (length Kvs)
             in if randIndex < length Kvs then Inr (Value (snd (Kvs ! randIndex)))
                else Inl ErrIndexOutOfRange)"

section \<open>The lock built from a transaction and a watch (etcd_dlock_test.go)\<close>

text \<open>
  \<open>TestDistributedLockNormal\<close> is run by any number of processes against one store. A
  process is at one of the store calls of the function: the grant of its lease, the start of
  the renewal, the transaction at the label \<open>getlock\<close>, the creation of the watch, the
  loop over the watch channel, and the critical section, which ends with the delete of the
  key. \<open>t.Fatalf\<close> ends the process (\<open>Fatal\<close>, with the error).

  The program points, with the lines of the source: \<open>AtGrant\<close> (108),
  \<open>AtKeepAlive\<close> (122), \<open>AtGetLock\<close> (143 to 183), \<open>AtWatch\<close> (191),
  \<open>AtRange\<close> (194 to 208), \<open>AtCritical\<close> (215, left by the delete of 219).
  The local variables of a process are \<open>leaseResp.ID\<close>, \<open>keepAliveChan\<close>,
  \<open>txnResp\<close> and \<open>watchChan\<close>; a channel holds the responses not yet read.
\<close>

definition lockKey :: string where
  "lockKey = ''my-distributed-lock-normal''"

datatype pc = AtGrant | AtKeepAlive | AtGetLock | AtWatch | AtRange | AtCritical | Finished | Fatal

record WatchResponse =
  Events :: "Event list"

datatype WatchChan = NoWatch | Open "WatchResponse list" | Closed "WatchResponse list"

record proc =
  pc :: pc
  leaseResp :: LeaseID
  keepAliveChan :: "LeaseID option"
  txnResp :: TxnResponse
  watchChan :: WatchChan
  failure :: "error option"

record system =
  store :: etcd
  procs :: "nat \<Rightarrow> proc"

definition init_proc :: proc where
  "init_proc = \<lparr>pc = AtGrant, leaseResp = NoLease, keepAliveChan = None,
                 txnResp = \<lparr>Succeeded = False\<rparr>, watchChan = NoWatch, failure = None\<rparr>"

definition init :: system where
  "init = \<lparr>store = new_store, procs = (\<lambda>i. init_proc)\<rparr>"

text \<open>
  Modelled from the spec: \<open>Watch(key|prefix) -> stream of {eventType, key, value}\<close>
  (sections 3 and 6), missing from the sources. The store reports every mutation of the
  watched key to the watch channels that are open: the events the mutation added to the
  history, restricted to the key, arrive as one response. A watch sees the mutations made
  after it was created.
\<close>

definition new_events :: "etcd \<Rightarrow> etcd \<Rightarrow> Event list" where
  "new_events st st' = filter (\<lambda>ev. EvKey ev = lockKey) (drop (length (history st)) (history st'))"

definition deliver :: "Event list \<Rightarrow> proc \<Rightarrow> proc" where
  "deliver evs p =
     (case watchChan p of
        Open q \<Rightarrow> if evs = [] then p else p\<lparr>watchChan := Open (q @ [\<lparr>Events = evs\<rparr>])\<rparr>
      | _ \<Rightarrow> p)"

definition commit :: "etcd \<Rightarrow> system \<Rightarrow> system" where
  "commit st' s = \<lparr>store = st', procs = (\<lambda>i. deliver (new_events (store s) st') (procs s i))\<rparr>"

definition set_proc :: "nat \<Rightarrow> proc \<Rightarrow> system \<Rightarrow> system" where
  "set_proc i p s = s\<lparr>procs := (procs s)(i := p)\<rparr>"

text \<open>
  The inner loop over the events of one response: a Delete event jumps to \<open>getlock\<close>
  (\<open>True\<close>), any other event is passed over.
\<close>

fun range_events :: "Event list \<Rightarrow> bool" where
  "range_events [] = False"
| "range_events (ev # evs) = (if Type ev = EventTypeDelete then True else range_events evs)"

text \<open>
  The outer loop, one response at a time. With an empty open channel the process is
  blocked. When the channel is closed and empty the loop ends, and the function goes on to
  the critical section.
\<close>

definition range_watchChan :: "nat \<Rightarrow> system \<Rightarrow> system" where
  "range_watchChan i s =
     (let p = procs s i
      in case watchChan p of
           NoWatch \<Rightarrow> s
         | Open [] \<Rightarrow> s
         | Open (w # ws) \<Rightarrow>
             if range_events (Events w) then set_proc i (p\<lparr>pc := AtGetLock, watchChan := NoWatch\<rparr>) s
             else set_proc i (p\<lparr>watchChan := Open ws\<rparr>) s
         | Closed [] \<Rightarrow> set_proc i (p\<lparr>pc := AtCritical\<rparr>) s
         | Closed (w # ws) \<Rightarrow>
             if range_events (Events w) then set_proc i (p\<lparr>pc := AtGetLock, watchChan := NoWatch\<rparr>) s
             else set_proc i (p\<lparr>watchChan := Closed ws\<rparr>) s)"

text \<open>
  The transaction of the label \<open>getlock\<close>: if the creation revision of the key is 0,
  put the key with the value \<open>locked\<close>, bound to the lease of the process.
\<close>

definition getlock_txn :: "LeaseID \<Rightarrow> etcd \<Rightarrow> error + (TxnResponse \<times> etcd)" where
  "getlock_txn l st = store_txn [Compare lockKey CmpEqual 0] [OpPut lockKey ''locked'' l] [] st"

text \<open>The next statement of process \<open>i\<close>, when its store call returns without error.\<close>

definition lock_step :: "nat \<Rightarrow> system \<Rightarrow> system" where
  "lock_step i s =
     (let p = procs s i
      in case pc p of
           AtGrant \<Rightarrow>
             (let (lid, st') = lease_grant 5 (store s)
              in set_proc i (p\<lparr>leaseResp := lid, pc := AtKeepAlive\<rparr>) (s\<lparr>store := st'\<rparr>))
         | AtKeepAlive \<Rightarrow>
             set_proc i (p\<lparr>keepAliveChan := Some (leaseResp p), pc := AtGetLock\<rparr>) s
         | AtGetLock \<Rightarrow>
             (case getlock_txn (leaseResp p) (store s) of
                Inl e \<Rightarrow> set_proc i (p\<lparr>pc := Fatal, failure := Some e\<rparr>) s
              | Inr (resp, st') \<Rightarrow>
                  set_proc i
                    (p\<lparr>txnResp := resp, pc := (if Succeeded resp then AtCritical else AtWatch)\<rparr>)
                    (commit st' s))
         | AtWatch \<Rightarrow> set_proc i (p\<lparr>watchChan := Open [], pc := AtRange\<rparr>) s
         | AtRange \<Rightarrow> range_watchChan i s
         | AtCritical \<Rightarrow>
             set_proc i (p\<lparr>pc := Finished\<rparr>) (commit (store_delete lockKey (store s)) s)
         | Finished \<Rightarrow> s
         | Fatal \<Rightarrow> s)"

text \<open>
  The next store call of process \<open>i\<close> returns a transport error: \<open>t.Fatalf\<close>. The
  creation of the watch and the reading of its channel return no error.
\<close>

definition lock_error :: "nat \<Rightarrow> system \<Rightarrow> system" where
  "lock_error i s =
     (let p = procs s i
      in if pc p \<in> {AtGrant, AtKeepAlive, AtGetLock, AtCritical}
         then set_proc i (p\<lparr>pc := Fatal, failure := Some ErrConn\<rparr>) s
         else s)"

definition close_watch :: "nat \<Rightarrow> system \<Rightarrow> system" where
  "close_watch i s =
     (let p = procs s i
      in case watchChan p of
           Open q \<Rightarrow> set_proc i (p\<lparr>watchChan := Closed q\<rparr>) s
         | _ \<Rightarrow> s)"

text \<open>
  A run of the system is a list of actions: a process executes its next statement, a store
  call of a process fails, the store lets a lease expire, or the watch channel of a process
  is closed (the connection to the store is lost).
\<close>

datatype action = Run nat | Err nat | Expire LeaseID | CloseWatch nat

fun step :: "action \<Rightarrow> system \<Rightarrow> system" where
  "step (Run i) s = lock_step i s"
| "step (Err i) s = lock_error i s"
| "step (Expire l) s = commit (lease_expire l (store s)) s"
| "step (CloseWatch i) s = close_watch i s"

fun run :: "action list \<Rightarrow> system \<Rightarrow> system" where
  "run [] s = s"
| "run (a # as) s = run as (step a s)"



text \<open>
  The state Held of the specification's state machine (section 4.2): a process enters it
  when its transaction succeeds, and leaves it by its own unlock, which ends the critical
  section, or when its own lease expires. So a process holds the lock when it is in the
  critical section after a transaction that succeeded and its lease is live.
\<close>

definition Held :: "nat \<Rightarrow> system \<Rightarrow> bool" where
  "Held i s \<longleftrightarrow>
     pc (procs s i) = AtCritical \<and> Succeeded (txnResp (procs s i)) \<and>
     leaseResp (procs s i) \<in> set (leases (store s))"

text \<open>
  A process owns the key when it is in the critical section after a transaction that
  succeeded and the key is in the store, bound to its lease.
\<close>

definition owns_key :: "nat \<Rightarrow> system \<Rightarrow> bool" where
  "owns_key i s \<longleftrightarrow>
     pc (procs s i) = AtCritical \<and> Succeeded (txnResp (procs s i)) \<and>
     map_option Lease (lookup lockKey (store s)) = Some (leaseResp (procs s i))"

section \<open>Well-formed stores, invariants and the inputs of the examples\<close>

text \<open>
  The invariant of the store: keys are unique, every record has a positive creation revision
  no later than the store's revision, a record bound to a lease is bound to a live one, and
  the live leases are distinct and were all issued before \<open>nextLease\<close>.
\<close>

definition wf_store :: "etcd \<Rightarrow> bool" where
  "wf_store st \<longleftrightarrow>
     distinct (map fst (kvs st)) \<and>
     (\<forall>(k, e) \<in> set (kvs st).
        0 < CreateRevision e \<and> CreateRevision e \<le> revision st \<and>
        (Lease e \<noteq> NoLease \<longrightarrow> Lease e \<in> set (leases st))) \<and>
     (\<forall>l \<in> set (leases st). 0 < l \<and> l < nextLease st) \<and>
     distinct (leases st) \<and> 0 < revision st \<and> 0 < nextLease st"

definition no_fault :: "rpc \<Rightarrow> bool" where
  "no_fault c = False"

definition fail_put :: "rpc \<Rightarrow> bool" where
  "fail_put c = (c = RpcPut)"

definition first_index :: "nat \<Rightarrow> nat" where
  "first_index n = 0"

definition registry0 :: RegistryEtcd where
  "registry0 = \<lparr>client = \<lparr>closed = False, keepAlives = []\<rparr>, leaseID = 0, leaseTTL = LeaseTTL,
                 leaseKeepAliveRespCh = None\<rparr>"

definition discovery0 :: DiscoveryEtcd where
  "discovery0 = \<lparr>dclient = \<lparr>closed = False, keepAlives = []\<rparr>\<rparr>"

text \<open>
  The invariant of the runs: the store is well formed, the leases of the processes were
  issued by the store and are pairwise different, a process past the grant has a lease, and
  only a process ended by \<open>t.Fatalf\<close> has an error.
\<close>

definition sys_inv :: "system \<Rightarrow> bool" where
  "sys_inv s \<longleftrightarrow>
     wf_store (store s) \<and>
     (\<forall>i. leaseResp (procs s i) \<noteq> NoLease \<longrightarrow>
          0 < leaseResp (procs s i) \<and> leaseResp (procs s i) < nextLease (store s)) \<and>
     (\<forall>i j. i \<noteq> j \<longrightarrow> leaseResp (procs s i) \<noteq> NoLease \<longrightarrow>
          leaseResp (procs s i) \<noteq> leaseResp (procs s j)) \<and>
     (\<forall>i. pc (procs s i) = AtGrant \<or> pc (procs s i) = Fatal \<or> leaseResp (procs s i) \<noteq> NoLease) \<and>
     (\<forall>i. pc (procs s i) \<noteq> Fatal \<longrightarrow> failure (procs s i) = None)"




definition waiting :: "action list" where
  "waiting = [Run 0, Run 0, Run 0, Run 1, Run 1, Run 1, Run 1]"

definition watch_closed :: "action list" where
  "watch_closed = waiting @ [CloseWatch 1, Run 1]"

definition lease_expired :: "action list" where
  "lease_expired = [Run 0, Run 0, Run 0, Run 1, Run 1, Expire 2]"

definition lease_expired_free :: "action list" where
  "lease_expired_free = [Run 1, Run 1, Expire 1]"




text \<open>
  The runs of the examples: two registrations of the service \<open>svc\<close> by one registry on
  a new store, the deregistration that follows them, and the registration of
  \<open>order_service\<close> of the repository's test.
\<close>

definition two_registrations :: "RegistryEtcd \<times> etcd" where
  "two_registrations =
     snd (Registry no_fault ''u2'' \<lparr>Name = ''svc'', Addr = ''host:2''\<rparr>
       (fst (snd (Registry no_fault ''u1'' \<lparr>Name = ''svc'', Addr = ''host:1''\<rparr> registry0 new_store)))
       (snd (snd (Registry no_fault ''u1'' \<lparr>Name = ''svc'', Addr = ''host:1''\<rparr> registry0 new_store))))"

definition after_deregister :: "error option \<times> RegistryEtcd \<times> etcd" where
  "after_deregister = DeRegistry no_fault (fst two_registrations) (snd two_registrations)"

definition order_registration :: "error option \<times> RegistryEtcd \<times> etcd" where
  "order_registration =
     Registry no_fault ''u1'' \<lparr>Name = ''order_service'', Addr = ''localhost:8080''\<rparr> registry0 new_store"

section \<open>Properties of the store\<close>

lemma wf_new_store: "wf_store new_store"
  by (simp add: wf_store_def new_store_def)

lemma in_update_cases:
  "(k', e') \<in> set (AList.update k v al) \<Longrightarrow> (k', e') = (k, v) \<or> (k', e') \<in> set al"
  by (induction al) (auto split: if_splits)

lemma lookup_iff: "distinct (map fst (kvs st)) \<Longrightarrow> lookup k st = Some e \<longleftrightarrow> (k, e) \<in> set (kvs st)"
  by (simp add: lookup_def)

lemma lookup_None_iff: "lookup k st = None \<longleftrightarrow> k \<notin> fst ` set (kvs st)"
  by (simp add: lookup_def map_of_eq_None_iff)

lemma wf_lease_grant: "wf_store st \<Longrightarrow> wf_store (snd (lease_grant ttl st))"
  by (fastforce simp: wf_store_def lease_grant_def)

lemma lease_grant_fresh: "wf_store st \<Longrightarrow> fst (lease_grant ttl st) \<notin> set (leases st)"
  by (auto simp: wf_store_def lease_grant_def)

lemma wf_store_put:
  assumes "wf_store st" and "store_put k v l st = Inr st'"
  shows "wf_store st'"
proof -
  from assms(2) have l: "l = NoLease \<or> l \<in> set (leases st)"
    and st': "st' = st\<lparr>kvs := AList.update k \<lparr>Value = v,
        CreateRevision = (case lookup k st of None \<Rightarrow> revision st + 1 | Some e \<Rightarrow> CreateRevision e),
        Lease = l\<rparr> (kvs st), revision := revision st + 1,
        history := history st @ [\<lparr>Type = EventTypePut, EvKey = k, EvValue = v\<rparr>]\<rparr>"
    by (auto simp: store_put_def Let_def split: if_splits)
  have d: "distinct (map fst (kvs st))" using assms(1) by (simp add: wf_store_def)
  have cr: "0 < (case lookup k st of None \<Rightarrow> revision st + 1 | Some e \<Rightarrow> CreateRevision e) \<and>
     (case lookup k st of None \<Rightarrow> revision st + 1 | Some e \<Rightarrow> CreateRevision e) \<le> revision st + 1"
  proof (cases "lookup k st")
    case None
    then show ?thesis using assms(1) by (simp add: wf_store_def)
  next
    case (Some e)
    then have "(k, e) \<in> set (kvs st)" using d by (simp add: lookup_iff)
    then show ?thesis using assms(1) Some by (fastforce simp: wf_store_def)
  qed
  show ?thesis
    unfolding wf_store_def st' using assms(1) l cr
    by (auto simp: wf_store_def distinct_update dest!: in_update_cases)
qed

lemma wf_store_delete: "wf_store st \<Longrightarrow> wf_store (store_delete k st)"
  by (auto simp: wf_store_def store_delete_def distinct_delete AList.delete_eq distinct_map_filter split: option.splits)

lemma wf_lease_expire: "wf_store st \<Longrightarrow> wf_store (lease_expire l st)"
  by (auto simp: wf_store_def lease_expire_def Let_def distinct_map_filter distinct_removeAll)

lemma wf_lease_revoke: "wf_store st \<Longrightarrow> lease_revoke l st = Inr st' \<Longrightarrow> wf_store st'"
  by (auto simp: lease_revoke_def wf_lease_expire split: if_splits)

lemma wf_apply_ops: "wf_store st \<Longrightarrow> apply_ops ops st = Inr st' \<Longrightarrow> wf_store st'"
proof (induction ops arbitrary: st)
  case Nil
  then show ?case by simp
next
  case (Cons x xs)
  then show ?case
    by (cases x) (auto split: sum.splits intro: wf_store_put wf_store_delete)
qed

lemma wf_store_txn: "wf_store st \<Longrightarrow> store_txn cmps thn els st = Inr (resp, st') \<Longrightarrow> wf_store st'"
  by (auto simp: store_txn_def Let_def split: sum.splits intro: wf_apply_ops)

lemma lookup_store_put:
  "store_put k v l st = Inr st' \<Longrightarrow>
   lookup k' st' = (if k' = k then Some \<lparr>Value = v,
       CreateRevision = (case lookup k st of None \<Rightarrow> revision st + 1 | Some e \<Rightarrow> CreateRevision e),
       Lease = l\<rparr> else lookup k' st)"
  by (auto simp: store_put_def Let_def lookup_def update_conv' split: if_splits)

lemma store_put_other:
  "store_put k v l st = Inr st' \<Longrightarrow> leases st' = leases st \<and> nextLease st' = nextLease st"
  by (auto simp: store_put_def Let_def split: if_splits)

lemma store_put_live: "l \<in> set (leases st) \<Longrightarrow> \<exists>st'. store_put k v l st = Inr st'"
  by (simp add: store_put_def Let_def)

lemma lookup_lease_grant [simp]: "lookup k (snd (lease_grant ttl st)) = lookup k st"
  by (simp add: lookup_def lease_grant_def)

lemma map_of_filter_value:
  "distinct (map fst xs) \<Longrightarrow>
   map_of (filter (\<lambda>(k, e). P e) xs) k =
     (case map_of xs k of None \<Rightarrow> None | Some e \<Rightarrow> if P e then Some e else None)"
proof (induction xs)
  case Nil
  then show ?case by simp
next
  case (Cons a xs)
  obtain k' e' where a: "a = (k', e')" by (cases a)
  have notin: "k' \<notin> fst ` set xs" using Cons.prems a by simp
  then have none: "map_of xs k' = None" "map_of (filter (\<lambda>(k, e). P e) xs) k' = None"
    by (auto simp: map_of_eq_None_iff)
  show ?case
  proof (cases "k = k'")
    case True
    then show ?thesis using a none by simp
  next
    case False
    then show ?thesis using a Cons by simp
  qed
qed

lemma lookup_lease_expire:
  "distinct (map fst (kvs st)) \<Longrightarrow> l \<in> set (leases st) \<Longrightarrow>
   lookup k (lease_expire l st) =
     (case lookup k st of None \<Rightarrow> None | Some e \<Rightarrow> if Lease e \<noteq> l then Some e else None)"
  by (simp add: lookup_def lease_expire_def Let_def map_of_filter_value)

section \<open>Properties of the lock\<close>

lemma deliver_fields [simp]:
  "pc (deliver evs p) = pc p"
  "leaseResp (deliver evs p) = leaseResp p"
  "txnResp (deliver evs p) = txnResp p"
  "keepAliveChan (deliver evs p) = keepAliveChan p"
  "failure (deliver evs p) = failure p"
  by (simp_all add: deliver_def split: WatchChan.splits)

lemma commit_fields [simp]:
  "store (commit st' s) = st'"
  "procs (commit st' s) i = deliver (new_events (store s) st') (procs s i)"
  by (simp_all add: commit_def)

lemma set_proc_fields [simp]:
  "store (set_proc i p s) = store s"
  "procs (set_proc i p s) j = (if j = i then p else procs s j)"
  by (simp_all add: set_proc_def)

lemma create_revision_zero:
  "wf_store st \<Longrightarrow> create_revision k st = 0 \<longleftrightarrow> lookup k st = None"
proof (cases "lookup k st")
  case None
  then show ?thesis by (simp add: create_revision_def)
next
  case (Some e)
  assume w: "wf_store st"
  then have "(k, e) \<in> set (kvs st)" using Some by (simp add: wf_store_def lookup_iff)
  then have "0 < CreateRevision e" using w by (fastforce simp: wf_store_def)
  then show ?thesis using Some by (simp add: create_revision_def)
qed

lemma getlock_txn_unfold:
  "getlock_txn l st =
     (if create_revision lockKey st = 0
      then (case store_put lockKey ''locked'' l st of
              Inl e \<Rightarrow> Inl e | Inr st' \<Rightarrow> Inr (\<lparr>Succeeded = True\<rparr>, st'))
      else Inr (\<lparr>Succeeded = False\<rparr>, st))"
  by (simp add: getlock_txn_def store_txn_def Let_def split: sum.splits)

lemma wf_getlock_txn: "wf_store st \<Longrightarrow> getlock_txn l st = Inr (resp, st') \<Longrightarrow> wf_store st'"
  unfolding getlock_txn_def by (rule wf_store_txn)

lemma getlock_txn_nextLease: "getlock_txn l st = Inr (resp, st') \<Longrightarrow> nextLease st' = nextLease st"
  by (auto simp: getlock_txn_unfold store_put_def Let_def split: if_splits sum.splits)

lemma store_delete_nextLease [simp]: "nextLease (store_delete k st) = nextLease st"
  by (simp add: store_delete_def split: option.splits)

lemma lease_expire_nextLease [simp]: "nextLease (lease_expire l st) = nextLease st"
  by (simp add: lease_expire_def Let_def)

lemma sys_inv_init: "sys_inv init"
  by (simp add: sys_inv_def init_def init_proc_def wf_new_store)

lemma sys_inv_set_proc:
  assumes "sys_inv s" and "leaseResp p = leaseResp (procs s i)"
    and "pc p = AtGrant \<or> pc p = Fatal \<or> leaseResp p \<noteq> NoLease"
    and "pc p \<noteq> Fatal \<longrightarrow> failure p = None"
  shows "sys_inv (set_proc i p s)"
proof -
  have l: "\<And>j. leaseResp (procs (set_proc i p s) j) = leaseResp (procs s j)"
    using assms(2) by simp
  have 1: "wf_store (store (set_proc i p s))" using assms(1) by (simp add: sys_inv_def)
  have 2: "\<forall>j. leaseResp (procs (set_proc i p s) j) \<noteq> NoLease \<longrightarrow>
          0 < leaseResp (procs (set_proc i p s) j) \<and>
          leaseResp (procs (set_proc i p s) j) < nextLease (store (set_proc i p s))"
    unfolding l using assms(1) by (simp add: sys_inv_def)
  have 3: "\<forall>j k. j \<noteq> k \<longrightarrow> leaseResp (procs (set_proc i p s) j) \<noteq> NoLease \<longrightarrow>
          leaseResp (procs (set_proc i p s) j) \<noteq> leaseResp (procs (set_proc i p s) k)"
    unfolding l using assms(1) by (simp add: sys_inv_def)
  have 4: "\<forall>j. pc (procs (set_proc i p s) j) = AtGrant \<or> pc (procs (set_proc i p s) j) = Fatal \<or>
          leaseResp (procs (set_proc i p s) j) \<noteq> NoLease"
    using assms(1,3) by (simp add: sys_inv_def)
  have 5: "\<forall>j. pc (procs (set_proc i p s) j) \<noteq> Fatal \<longrightarrow> failure (procs (set_proc i p s) j) = None"
    using assms(1,4) by (simp add: sys_inv_def)
  show ?thesis unfolding sys_inv_def using 1 2 3 4 5 by blast
qed

lemma sys_inv_commit:
  "sys_inv s \<Longrightarrow> wf_store st' \<Longrightarrow> nextLease st' = nextLease (store s) \<Longrightarrow> sys_inv (commit st' s)"
  by (simp add: sys_inv_def)

lemma sys_inv_no_failure: "sys_inv s \<Longrightarrow> pc (procs s i) \<noteq> Fatal \<Longrightarrow> failure (procs s i) = None"
  unfolding sys_inv_def by blast

lemma sys_inv_has_lease:
  "sys_inv s \<Longrightarrow> pc (procs s i) \<noteq> AtGrant \<Longrightarrow> pc (procs s i) \<noteq> Fatal \<Longrightarrow>
   leaseResp (procs s i) \<noteq> NoLease"
  unfolding sys_inv_def by blast

lemma sys_inv_range_watchChan:
  assumes "sys_inv s" and "pc (procs s i) = AtRange"
  shows "sys_inv (range_watchChan i s)"
proof -
  have l: "leaseResp (procs s i) \<noteq> NoLease" "failure (procs s i) = None"
    using sys_inv_has_lease[OF assms(1), of i] sys_inv_no_failure[OF assms(1), of i] assms(2) by simp_all
  have 1: "sys_inv (set_proc i (procs s i\<lparr>pc := AtGetLock, watchChan := NoWatch\<rparr>) s)"
    using l by (intro sys_inv_set_proc[OF assms(1)]) simp_all
  have 2: "\<And>q. sys_inv (set_proc i (procs s i\<lparr>watchChan := q\<rparr>) s)"
    using l by (intro sys_inv_set_proc[OF assms(1)]) simp_all
  have 3: "sys_inv (set_proc i (procs s i\<lparr>pc := AtCritical\<rparr>) s)"
    using l by (intro sys_inv_set_proc[OF assms(1)]) simp_all
  show ?thesis
    using assms(1) 1 2 3
    by (simp add: range_watchChan_def Let_def split: WatchChan.splits list.splits)
qed

lemma sys_inv_close_watch: "sys_inv s \<Longrightarrow> sys_inv (close_watch i s)"
proof -
  assume i: "sys_inv s"
  have "\<And>q. sys_inv (set_proc i (procs s i\<lparr>watchChan := q\<rparr>) s)"
    using i by (intro sys_inv_set_proc[OF i]) (auto simp: sys_inv_def)
  then show ?thesis using i by (simp add: close_watch_def Let_def split: WatchChan.splits)
qed

lemma sys_inv_lock_error: "sys_inv s \<Longrightarrow> sys_inv (lock_error i s)"
proof -
  assume i: "sys_inv s"
  have "sys_inv (set_proc i (procs s i\<lparr>pc := Fatal, failure := Some ErrConn\<rparr>) s)"
    by (intro sys_inv_set_proc[OF i]) simp_all
  then show ?thesis using i by (simp add: lock_error_def Let_def)
qed

lemma sys_inv_grant:
  assumes "sys_inv s" and pci: "pc (procs s i) = AtGrant"
  shows "sys_inv (set_proc i (procs s i\<lparr>leaseResp := nextLease (store s), pc := AtKeepAlive\<rparr>)
          (s\<lparr>store := snd (lease_grant 5 (store s))\<rparr>))"
proof -
  let ?n = "nextLease (store s)"
  have n: "0 < ?n" "?n \<noteq> NoLease" using assms by (auto simp: sys_inv_def wf_store_def NoLease_def)
  have w: "wf_store (snd (lease_grant 5 (store s)))" using assms by (simp add: sys_inv_def wf_lease_grant)
  have nx: "nextLease (snd (lease_grant 5 (store s))) = ?n + 1" by (simp add: lease_grant_def)
  have old: "\<And>j. leaseResp (procs s j) \<noteq> NoLease \<Longrightarrow>
     0 < leaseResp (procs s j) \<and> leaseResp (procs s j) < ?n"
    using assms unfolding sys_inv_def by blast
  have dist: "\<And>j k. j \<noteq> k \<Longrightarrow> leaseResp (procs s j) \<noteq> NoLease \<Longrightarrow>
     leaseResp (procs s j) \<noteq> leaseResp (procs s k)"
    using assms unfolding sys_inv_def by blast
  have pcs: "\<And>j. pc (procs s j) = AtGrant \<or> pc (procs s j) = Fatal \<or> leaseResp (procs s j) \<noteq> NoLease"
    using assms unfolding sys_inv_def by blast
  have fl: "\<And>j. pc (procs s j) \<noteq> Fatal \<Longrightarrow> failure (procs s j) = None"
    using assms unfolding sys_inv_def by blast
  show ?thesis
    unfolding sys_inv_def
  proof (intro conjI allI impI)
    show "wf_store (store (set_proc i (procs s i\<lparr>leaseResp := ?n, pc := AtKeepAlive\<rparr>)
          (s\<lparr>store := snd (lease_grant 5 (store s))\<rparr>)))" using w by simp
  next
    fix j
    assume "leaseResp (procs (set_proc i (procs s i\<lparr>leaseResp := ?n, pc := AtKeepAlive\<rparr>)
          (s\<lparr>store := snd (lease_grant 5 (store s))\<rparr>)) j) \<noteq> NoLease"
    then show "0 < leaseResp (procs (set_proc i (procs s i\<lparr>leaseResp := ?n, pc := AtKeepAlive\<rparr>)
          (s\<lparr>store := snd (lease_grant 5 (store s))\<rparr>)) j)"
      using n old[of j] by (cases "j = i") simp_all
  next
    fix j
    assume "leaseResp (procs (set_proc i (procs s i\<lparr>leaseResp := ?n, pc := AtKeepAlive\<rparr>)
          (s\<lparr>store := snd (lease_grant 5 (store s))\<rparr>)) j) \<noteq> NoLease"
    then show "leaseResp (procs (set_proc i (procs s i\<lparr>leaseResp := ?n, pc := AtKeepAlive\<rparr>)
          (s\<lparr>store := snd (lease_grant 5 (store s))\<rparr>)) j)
        < nextLease (store (set_proc i (procs s i\<lparr>leaseResp := ?n, pc := AtKeepAlive\<rparr>)
          (s\<lparr>store := snd (lease_grant 5 (store s))\<rparr>)))"
      using n nx old[of j] by (cases "j = i") simp_all
  next
    fix j k
    assume jk: "j \<noteq> k"
      and "leaseResp (procs (set_proc i (procs s i\<lparr>leaseResp := ?n, pc := AtKeepAlive\<rparr>)
          (s\<lparr>store := snd (lease_grant 5 (store s))\<rparr>)) j) \<noteq> NoLease"
    then show "leaseResp (procs (set_proc i (procs s i\<lparr>leaseResp := ?n, pc := AtKeepAlive\<rparr>)
          (s\<lparr>store := snd (lease_grant 5 (store s))\<rparr>)) j) \<noteq>
        leaseResp (procs (set_proc i (procs s i\<lparr>leaseResp := ?n, pc := AtKeepAlive\<rparr>)
          (s\<lparr>store := snd (lease_grant 5 (store s))\<rparr>)) k)"
      using n old[of j] old[of k] dist[of j k]
      by (cases "j = i"; cases "k = i") (auto simp: NoLease_def)
  next
    fix j
    show "pc (procs (set_proc i (procs s i\<lparr>leaseResp := ?n, pc := AtKeepAlive\<rparr>)
          (s\<lparr>store := snd (lease_grant 5 (store s))\<rparr>)) j) = AtGrant \<or>
        pc (procs (set_proc i (procs s i\<lparr>leaseResp := ?n, pc := AtKeepAlive\<rparr>)
          (s\<lparr>store := snd (lease_grant 5 (store s))\<rparr>)) j) = Fatal \<or>
        leaseResp (procs (set_proc i (procs s i\<lparr>leaseResp := ?n, pc := AtKeepAlive\<rparr>)
          (s\<lparr>store := snd (lease_grant 5 (store s))\<rparr>)) j) \<noteq> NoLease"
      using n pcs[of j] by (cases "j = i") simp_all
  next
    fix j
    assume "pc (procs (set_proc i (procs s i\<lparr>leaseResp := ?n, pc := AtKeepAlive\<rparr>)
          (s\<lparr>store := snd (lease_grant 5 (store s))\<rparr>)) j) \<noteq> Fatal"
    then show "failure (procs (set_proc i (procs s i\<lparr>leaseResp := ?n, pc := AtKeepAlive\<rparr>)
          (s\<lparr>store := snd (lease_grant 5 (store s))\<rparr>)) j) = None"
      using fl[of j] pci by (cases "j = i") simp_all
  qed
qed

lemma sys_inv_lock_step: "sys_inv s \<Longrightarrow> sys_inv (lock_step i s)"
proof -
  assume i: "sys_inv s"
  show ?thesis
  proof (cases "pc (procs s i)")
    case AtGrant
    then show ?thesis using sys_inv_grant[OF i, of i]
      by (simp add: lock_step_def Let_def lease_grant_def)
  next
    case AtKeepAlive
    have "leaseResp (procs s i) \<noteq> NoLease" "failure (procs s i) = None"
      using sys_inv_has_lease[OF i, of i] sys_inv_no_failure[OF i, of i] AtKeepAlive by simp_all
    then have "sys_inv (set_proc i (procs s i\<lparr>keepAliveChan := Some (leaseResp (procs s i)), pc := AtGetLock\<rparr>) s)"
      by (intro sys_inv_set_proc[OF i]) simp_all
    then show ?thesis using AtKeepAlive by (simp add: lock_step_def Let_def)
  next
    case AtGetLock
    have l: "leaseResp (procs s i) \<noteq> NoLease" "failure (procs s i) = None"
      using sys_inv_has_lease[OF i, of i] sys_inv_no_failure[OF i, of i] AtGetLock by simp_all
    show ?thesis
    proof (cases "getlock_txn (leaseResp (procs s i)) (store s)")
      case (Inl e)
      have "sys_inv (set_proc i (procs s i\<lparr>pc := Fatal, failure := Some e\<rparr>) s)"
        by (intro sys_inv_set_proc[OF i]) simp_all
      then show ?thesis using AtGetLock Inl by (simp add: lock_step_def Let_def)
    next
      case (Inr r)
      obtain resp st' where r: "r = (resp, st')" by (cases r)
      have w: "wf_store st'" using wf_getlock_txn Inr r i unfolding sys_inv_def by blast
      have c: "sys_inv (commit st' s)"
        using getlock_txn_nextLease Inr r w by (intro sys_inv_commit[OF i]) auto
      have "sys_inv (set_proc i (procs s i\<lparr>txnResp := resp,
               pc := (if Succeeded resp then AtCritical else AtWatch)\<rparr>) (commit st' s))"
        using l by (intro sys_inv_set_proc[OF c]) simp_all
      then show ?thesis using AtGetLock Inr r by (simp add: lock_step_def Let_def)
    qed
  next
    case AtWatch
    have "leaseResp (procs s i) \<noteq> NoLease" "failure (procs s i) = None"
      using sys_inv_has_lease[OF i, of i] sys_inv_no_failure[OF i, of i] AtWatch by simp_all
    then have "sys_inv (set_proc i (procs s i\<lparr>watchChan := Open [], pc := AtRange\<rparr>) s)"
      by (intro sys_inv_set_proc[OF i]) simp_all
    then show ?thesis using AtWatch by (simp add: lock_step_def Let_def)
  next
    case AtRange
    then show ?thesis using i by (simp add: lock_step_def Let_def sys_inv_range_watchChan)
  next
    case AtCritical
    have l: "leaseResp (procs s i) \<noteq> NoLease" "failure (procs s i) = None"
      using sys_inv_has_lease[OF i, of i] sys_inv_no_failure[OF i, of i] AtCritical by simp_all
    have w: "wf_store (store_delete lockKey (store s))" using i by (simp add: sys_inv_def wf_store_delete)
    have c: "sys_inv (commit (store_delete lockKey (store s)) s)"
      using w by (intro sys_inv_commit[OF i]) simp_all
    have "sys_inv (set_proc i (procs s i\<lparr>pc := Finished\<rparr>) (commit (store_delete lockKey (store s)) s))"
      using l by (intro sys_inv_set_proc[OF c]) simp_all
    then show ?thesis using AtCritical by (simp add: lock_step_def Let_def)
  next
    case Finished
    then show ?thesis using i by (simp add: lock_step_def Let_def)
  next
    case Fatal
    then show ?thesis using i by (simp add: lock_step_def Let_def)
  qed
qed

lemma sys_inv_step: "sys_inv s \<Longrightarrow> sys_inv (step a s)"
proof (cases a)
  case (Expire l)
  assume i: "sys_inv s"
  have "wf_store (lease_expire l (store s))" using i by (simp add: sys_inv_def wf_lease_expire)
  then have "sys_inv (commit (lease_expire l (store s)) s)" by (intro sys_inv_commit[OF i]) simp_all
  then show ?thesis using Expire by simp
qed (simp_all add: sys_inv_lock_step sys_inv_lock_error sys_inv_close_watch)

lemma run_append: "run (as @ bs) s = run bs (run as s)"
  by (induction as arbitrary: s) simp_all

lemma sys_inv_run: "sys_inv s \<Longrightarrow> sys_inv (run as s)"
  by (induction as arbitrary: s) (simp_all add: sys_inv_step)


lemma new_events_same [simp]: "new_events st st = []"
  by (simp add: new_events_def)

lemma deliver_Nil [simp]: "deliver [] p = p"
  by (simp add: deliver_def split: WatchChan.splits)

lemma commit_same [simp]: "commit (store s) s = s"
  by (simp add: commit_def)

lemma getlock_held_by_other:
  assumes "wf_store (store s)" and "lookup lockKey (store s) \<noteq> None"
    and "pc (procs s i) = AtGetLock"
  shows "lock_step i s = set_proc i (procs s i\<lparr>txnResp := \<lparr>Succeeded = False\<rparr>, pc := AtWatch\<rparr>) s"
  using assms by (auto simp: lock_step_def Let_def getlock_txn_unfold create_revision_zero)

lemma getlock_free:
  assumes "wf_store (store s)" and "lookup lockKey (store s) = None"
    and "pc (procs s i) = AtGetLock" and "leaseResp (procs s i) \<in> set (leases (store s))"
  shows "\<exists>st'. store_put lockKey ''locked'' (leaseResp (procs s i)) (store s) = Inr st' \<and>
           lock_step i s = set_proc i (procs s i\<lparr>txnResp := \<lparr>Succeeded = True\<rparr>, pc := AtCritical\<rparr>)
                             (commit st' s)"
proof -
  obtain st' where p: "store_put lockKey ''locked'' (leaseResp (procs s i)) (store s) = Inr st'"
    using store_put_live[OF assms(4)] by blast
  then show ?thesis
    using assms by (simp add: lock_step_def Let_def getlock_txn_unfold create_revision_zero)
qed

lemma getlock_dead_lease:
  assumes "wf_store (store s)" and "lookup lockKey (store s) = None"
    and "pc (procs s i) = AtGetLock" and "leaseResp (procs s i) \<notin> set (leases (store s))"
    and "leaseResp (procs s i) \<noteq> NoLease"
  shows "lock_step i s = set_proc i (procs s i\<lparr>pc := Fatal, failure := Some ErrLeaseNotFound\<rparr>) s"
  using assms by (simp add: lock_step_def Let_def getlock_txn_unfold create_revision_zero store_put_def)


lemma owns_key_other:
  "i \<noteq> j \<Longrightarrow> lookup lockKey (store s') = lookup lockKey (store s) \<Longrightarrow>
   pc (procs s' j) = pc (procs s j) \<Longrightarrow> txnResp (procs s' j) = txnResp (procs s j) \<Longrightarrow>
   leaseResp (procs s' j) = leaseResp (procs s j) \<Longrightarrow> owns_key j s' = owns_key j s"
  by (simp add: owns_key_def)



lemma lookup_store_delete_same [simp]: "lookup k (store_delete k st) = None"
  by (auto simp: store_delete_def lookup_def delete_conv' split: option.splits)










lemma sys_inv_reachable: "sys_inv (run as init)"
  by (rule sys_inv_run[OF sys_inv_init])

lemma owns_key_set_proc_other: "i \<noteq> j \<Longrightarrow> owns_key i (set_proc j p s) = owns_key i s"
  by (simp add: owns_key_def)




lemma lookup_store_put_fresh:
  assumes "store_put k v l st = Inr st'" and "lookup k st = None"
  shows "lookup k st' = Some \<lparr>Value = v, CreateRevision = revision st + 1, Lease = l\<rparr>"
  using lookup_store_put[OF assms(1), of k] assms(2) by simp

text \<open>
  Claim C2. The step at \<open>getlock\<close> changes the store by one transaction and nothing
  else. Its condition, creation revision of the key equal to 0, holds exactly when the key
  does not exist. The process is in the critical section right after this step exactly when
  the key did not exist and its lease was live, and whenever the transaction reports
  success; then the response reports success, the key
  exists with the value \<open>locked\<close>, created at the next revision and bound to the lease of
  the process, no other key has changed, and the process holds the lock. When the key
  exists the response reports failure, the store is unchanged and the process goes to the
  watch.
\<close>

theorem getlock_single_transaction:
  assumes "s = run as init" and "pc (procs s i) = AtGetLock" and "s' = step (Run i) s"
  shows "store s' = (case getlock_txn (leaseResp (procs s i)) (store s) of
                       Inl e \<Rightarrow> store s | Inr (resp, st') \<Rightarrow> st') \<and>
         (eval_cmp (store s) (Compare lockKey CmpEqual 0) \<longleftrightarrow> lookup lockKey (store s) = None) \<and>
         (\<forall>resp st'. getlock_txn (leaseResp (procs s i)) (store s) = Inr (resp, st') \<and>
            Succeeded resp \<longrightarrow> pc (procs s' i) = AtCritical \<and> store s' = st') \<and>
         (pc (procs s' i) = AtCritical \<longleftrightarrow>
            lookup lockKey (store s) = None \<and> leaseResp (procs s i) \<in> set (leases (store s))) \<and>
         (pc (procs s' i) = AtCritical \<longrightarrow>
            Succeeded (txnResp (procs s' i)) \<and> Held i s' \<and>
            lookup lockKey (store s') =
              Some \<lparr>Value = ''locked'', CreateRevision = revision (store s) + 1,
                    Lease = leaseResp (procs s i)\<rparr> \<and>
            (\<forall>k. k \<noteq> lockKey \<longrightarrow> lookup k (store s') = lookup k (store s))) \<and>
         (lookup lockKey (store s) \<noteq> None \<longrightarrow>
            pc (procs s' i) = AtWatch \<and> \<not> Succeeded (txnResp (procs s' i)) \<and> store s' = store s)"
proof -
  have inv: "sys_inv s" using assms(1) sys_inv_reachable by simp
  have w: "wf_store (store s)" using inv by (simp add: sys_inv_def)
  have l: "leaseResp (procs s i) \<noteq> NoLease" using sys_inv_has_lease[OF inv, of i] assms(2) by simp
  have e: "s' = lock_step i s" using assms(3) by simp
  have 1: "store s' = (case getlock_txn (leaseResp (procs s i)) (store s) of
                       Inl e \<Rightarrow> store s | Inr (resp, st') \<Rightarrow> st')"
    unfolding e using assms(2) by (simp add: lock_step_def Let_def split: sum.splits)
  have 2: "eval_cmp (store s) (Compare lockKey CmpEqual 0) \<longleftrightarrow> lookup lockKey (store s) = None"
    using create_revision_zero[OF w] by simp
  have 3: "\<forall>resp st'. getlock_txn (leaseResp (procs s i)) (store s) = Inr (resp, st') \<and>
            Succeeded resp \<longrightarrow> pc (procs s' i) = AtCritical \<and> store s' = st'"
    unfolding e using assms(2) by (simp add: lock_step_def Let_def)
  show ?thesis
  proof (cases "lookup lockKey (store s)")
    case (Some kv)
    have "s' = set_proc i (procs s i\<lparr>txnResp := \<lparr>Succeeded = False\<rparr>, pc := AtWatch\<rparr>) s"
      unfolding e using getlock_held_by_other[OF w _ assms(2)] Some by simp
    then have "pc (procs s' i) = AtWatch \<and> \<not> Succeeded (txnResp (procs s' i)) \<and> store s' = store s"
      by simp
    then show ?thesis using 1 2 3 Some by simp
  next
    case None
    show ?thesis
    proof (cases "leaseResp (procs s i) \<in> set (leases (store s))")
      case True
      from getlock_free[OF w None assms(2) True]
      obtain st' where p: "store_put lockKey ''locked'' (leaseResp (procs s i)) (store s) = Inr st'"
        and s': "s' = set_proc i (procs s i\<lparr>txnResp := \<lparr>Succeeded = True\<rparr>, pc := AtCritical\<rparr>)
                        (commit st' s)"
        unfolding e by blast
      have a: "pc (procs s' i) = AtCritical" "Succeeded (txnResp (procs s' i))" "store s' = st'"
        "leaseResp (procs s' i) = leaseResp (procs s i)"
        unfolding s' by simp_all
      have k: "lookup lockKey st' = Some \<lparr>Value = ''locked'', CreateRevision = revision (store s) + 1,
                    Lease = leaseResp (procs s i)\<rparr>"
        by (rule lookup_store_put_fresh[OF p None])
      have o: "\<forall>k. k \<noteq> lockKey \<longrightarrow> lookup k st' = lookup k (store s)"
        using lookup_store_put[OF p] by simp
      have "leases st' = leases (store s)" using store_put_other[OF p] by simp
      then have h: "Held i s'" using a True by (simp add: Held_def)
      show ?thesis using 1 2 3 None True a k o h by simp
    next
      case False
      have "s' = set_proc i (procs s i\<lparr>pc := Fatal, failure := Some ErrLeaseNotFound\<rparr>) s"
        unfolding e by (rule getlock_dead_lease[OF w None assms(2) False l])
      then have "pc (procs s' i) = Fatal" by simp
      then show ?thesis using 1 2 3 None False by simp
    qed
  qed
qed

text \<open>The theorem of C2 at the first attempt of process 0 on a new store.\<close>

theorem getlock_single_transaction_witness:
  "pc (procs (run [Run 0, Run 0] init) 0) = AtGetLock \<and>
   pc (procs (step (Run 0) (run [Run 0, Run 0] init)) 0) = AtCritical \<and>
   lookup lockKey (store (run [Run 0, Run 0] init)) = None \<and>
   Held 0 (step (Run 0) (run [Run 0, Run 0] init)) \<and>
   lookup lockKey (store (step (Run 0) (run [Run 0, Run 0] init))) =
     Some \<lparr>Value = ''locked'', CreateRevision = 2, Lease = 1\<rparr>"
proof -
  have g: "pc (procs (run [Run 0, Run 0] init) 0) = AtGetLock" by code_simp
  have c: "pc (procs (step (Run 0) (run [Run 0, Run 0] init)) 0) = AtCritical" by code_simp
  have r: "revision (store (run [Run 0, Run 0] init)) = 1"
    "leaseResp (procs (run [Run 0, Run 0] init) 0) = 1" by code_simp+
  note t = getlock_single_transaction[OF refl g refl, THEN conjunct2, THEN conjunct2, THEN conjunct2]
  have k: "lookup lockKey (store (run [Run 0, Run 0] init)) = None"
    using t[THEN conjunct1] c by blast
  have h: "Held 0 (step (Run 0) (run [Run 0, Run 0] init)) \<and>
      lookup lockKey (store (step (Run 0) (run [Run 0, Run 0] init))) =
        Some \<lparr>Value = ''locked'', CreateRevision = revision (store (run [Run 0, Run 0] init)) + 1,
              Lease = leaseResp (procs (run [Run 0, Run 0] init) 0)\<rparr>"
    using t[THEN conjunct2, THEN conjunct1] c by blast
  show ?thesis using g c k h unfolding r by simp
qed



lemma range_blocked:
  "pc (procs s i) = AtRange \<Longrightarrow> watchChan (procs s i) = Open [] \<Longrightarrow> lock_step i s = s"
  by (simp add: lock_step_def Let_def range_watchChan_def)









text \<open>
  Claim C4 at the run \<open>watch_closed\<close>. Process 0 holds the lock; the watch channel of
  the waiting process 1 is closed. The loop of process 1 ends and the process is in the
  critical section together with process 0, with no error, after a transaction that did not
  succeed and without holding the lock. Its next step deletes the key of process 0 and the
  test finishes without error.
\<close>

theorem watch_close_enters_critical_section:
  "pc (procs (run watch_closed init) 0) = AtCritical \<and>
   Held 0 (run watch_closed init) \<and>
   pc (procs (run watch_closed init) 1) = AtCritical \<and>
   \<not> Succeeded (txnResp (procs (run watch_closed init) 1)) \<and>
   \<not> Held 1 (run watch_closed init) \<and>
   failure (procs (run watch_closed init) 1) = None \<and>
   pc (procs (run (watch_closed @ [Run 1]) init) 1) = Finished \<and>
   failure (procs (run (watch_closed @ [Run 1]) init) 1) = None \<and>
   lookup lockKey (store (run (watch_closed @ [Run 1]) init)) = None \<and>
   pc (procs (run (watch_closed @ [Run 1]) init) 0) = AtCritical"
  by code_simp

text \<open>
  Claim C5 as stated fails at the run \<open>lease_expired\<close>: process 1 attempts the
  transaction with a lease that has expired, gets no error and waits on the watch channel.
\<close>

theorem expired_lease_enters_watch_loop:
  "pc (procs (run lease_expired init) 1) = AtGetLock \<and>
   leaseResp (procs (run lease_expired init) 1) = 2 \<and>
   leases (store (run lease_expired init)) = [1] \<and>
   pc (procs (run (lease_expired @ [Run 1, Run 1]) init) 1) = AtRange \<and>
   watchChan (procs (run (lease_expired @ [Run 1, Run 1]) init) 1) = Open [] \<and>
   failure (procs (run (lease_expired @ [Run 1, Run 1]) init) 1) = None"
  by code_simp

text \<open>
  Claim C5, as the code has it. A process that attempts the transaction always has a lease
  (a failed grant ends the test before). When that lease has expired and the key does not
  exist, the store refuses the put, and the test ends with the error of the store, the store
  unchanged. When the lease has expired and the key exists, the transaction reports failure
  without error and the process creates its watch and blocks on the channel like any other
  waiter.
\<close>

theorem getlock_expired_lease:
  assumes "s = run as init" and "pc (procs s i) = AtGetLock"
    and "leaseResp (procs s i) \<notin> set (leases (store s))"
  shows "leaseResp (procs s i) \<noteq> NoLease \<and>
         (lookup lockKey (store s) = None \<longrightarrow>
            pc (procs (step (Run i) s) i) = Fatal \<and>
            failure (procs (step (Run i) s) i) = Some ErrLeaseNotFound \<and>
            store (step (Run i) s) = store s) \<and>
         (lookup lockKey (store s) \<noteq> None \<longrightarrow>
            pc (procs (step (Run i) s) i) = AtWatch \<and>
            failure (procs (step (Run i) s) i) = None \<and>
            store (step (Run i) s) = store s \<and>
            pc (procs (run [Run i, Run i] s) i) = AtRange \<and>
            watchChan (procs (run [Run i, Run i] s) i) = Open [] \<and>
            failure (procs (run [Run i, Run i] s) i) = None \<and>
            run [Run i, Run i, Run i] s = run [Run i, Run i] s)"
proof -
  have inv: "sys_inv s" using assms(1) sys_inv_reachable by simp
  have w: "wf_store (store s)" using inv by (simp add: sys_inv_def)
  have l: "leaseResp (procs s i) \<noteq> NoLease" using sys_inv_has_lease[OF inv, of i] assms(2) by simp
  have f: "failure (procs s i) = None" using sys_inv_no_failure[OF inv, of i] assms(2) by simp
  have 1: "lookup lockKey (store s) = None \<longrightarrow>
            pc (procs (step (Run i) s) i) = Fatal \<and>
            failure (procs (step (Run i) s) i) = Some ErrLeaseNotFound \<and>
            store (step (Run i) s) = store s"
    using getlock_dead_lease[OF w _ assms(2,3) l] by simp
  have 2: "lookup lockKey (store s) \<noteq> None \<longrightarrow>
            pc (procs (step (Run i) s) i) = AtWatch \<and>
            failure (procs (step (Run i) s) i) = None \<and>
            store (step (Run i) s) = store s \<and>
            pc (procs (run [Run i, Run i] s) i) = AtRange \<and>
            watchChan (procs (run [Run i, Run i] s) i) = Open [] \<and>
            failure (procs (run [Run i, Run i] s) i) = None \<and>
            run [Run i, Run i, Run i] s = run [Run i, Run i] s"
  proof
    assume a: "lookup lockKey (store s) \<noteq> None"
    define s1 where "s1 = set_proc i (procs s i\<lparr>txnResp := \<lparr>Succeeded = False\<rparr>, pc := AtWatch\<rparr>) s"
    define s2 where "s2 = set_proc i (procs s1 i\<lparr>watchChan := Open [], pc := AtRange\<rparr>) s1"
    have e: "lock_step i s = s1" unfolding s1_def using getlock_held_by_other[OF w a assms(2)] .
    have p1: "pc (procs s1 i) = AtWatch" "failure (procs s1 i) = None" "store s1 = store s"
      using f by (simp_all add: s1_def)
    have e2: "lock_step i s1 = s2" using p1(1) by (simp add: lock_step_def Let_def s2_def)
    have p2: "pc (procs s2 i) = AtRange" "watchChan (procs s2 i) = Open []" "failure (procs s2 i) = None"
      using p1 by (simp_all add: s2_def)
    have e3: "lock_step i s2 = s2" by (rule range_blocked[OF p2(1,2)])
    show "pc (procs (step (Run i) s) i) = AtWatch \<and>
            failure (procs (step (Run i) s) i) = None \<and>
            store (step (Run i) s) = store s \<and>
            pc (procs (run [Run i, Run i] s) i) = AtRange \<and>
            watchChan (procs (run [Run i, Run i] s) i) = Open [] \<and>
            failure (procs (run [Run i, Run i] s) i) = None \<and>
            run [Run i, Run i, Run i] s = run [Run i, Run i] s"
      by (simp add: e e2 e3 p1 p2)
  qed
  from l 1 2 show ?thesis by blast
qed

text \<open>The theorem of C5 at the runs \<open>lease_expired\<close> and \<open>lease_expired_free\<close>.\<close>

theorem getlock_expired_lease_witness:
  "pc (procs (run lease_expired init) 1) = AtGetLock \<and>
   leaseResp (procs (run lease_expired init) 1) \<notin> set (leases (store (run lease_expired init))) \<and>
   lookup lockKey (store (run lease_expired init)) \<noteq> None \<and>
   pc (procs (run [Run 1, Run 1] (run lease_expired init)) 1) = AtRange \<and>
   run [Run 1, Run 1, Run 1] (run lease_expired init) = run [Run 1, Run 1] (run lease_expired init) \<and>
   pc (procs (run lease_expired_free init) 1) = AtGetLock \<and>
   leaseResp (procs (run lease_expired_free init) 1)
     \<notin> set (leases (store (run lease_expired_free init))) \<and>
   lookup lockKey (store (run lease_expired_free init)) = None \<and>
   failure (procs (step (Run 1) (run lease_expired_free init)) 1) = Some ErrLeaseNotFound"
proof -
  have g: "pc (procs (run lease_expired init) 1) = AtGetLock" by code_simp
  have x: "leaseResp (procs (run lease_expired init) 1) \<notin> set (leases (store (run lease_expired init)))"
    by code_simp
  have k: "lookup lockKey (store (run lease_expired init)) \<noteq> None" by code_simp
  have g2: "pc (procs (run lease_expired_free init) 1) = AtGetLock" by code_simp
  have x2: "leaseResp (procs (run lease_expired_free init) 1)
     \<notin> set (leases (store (run lease_expired_free init)))" by code_simp
  have k2: "lookup lockKey (store (run lease_expired_free init)) = None" by code_simp
  have a: "pc (procs (run [Run 1, Run 1] (run lease_expired init)) 1) = AtRange \<and>
     run [Run 1, Run 1, Run 1] (run lease_expired init) = run [Run 1, Run 1] (run lease_expired init)"
    using getlock_expired_lease[OF refl g x] k by blast
  have b: "failure (procs (step (Run 1) (run lease_expired_free init)) 1) = Some ErrLeaseNotFound"
    using getlock_expired_lease[OF refl g2 x2] k2 by blast
  from g x k a g2 x2 k2 b show ?thesis by blast
qed

section \<open>Properties of the registration\<close>

lemma NewEtcdRegistry_registry0:
  "NewEtcdRegistry False [''localhost:2379''] LeaseTTL = Inr registry0"
  by (simp add: NewEtcdRegistry_def registry0_def)

lemma NewEtcdDiscovery_discovery0:
  "NewEtcdDiscovery False [''localhost:2379''] = Inr discovery0"
  by (simp add: NewEtcdDiscovery_def discovery0_def)

lemma Registry_grant_fails:
  "closed (client r) \<or> fails RpcGrant \<Longrightarrow> Registry fails uuid service r st = (Some ErrConn, r, st)"
  by (simp add: Registry_def)

lemma Registry_put_fails:
  "\<not> closed (client r) \<Longrightarrow> \<not> fails RpcGrant \<Longrightarrow> fails RpcPut \<Longrightarrow>
   Registry fails uuid service r st =
     (Some ErrConn, r\<lparr>leaseID := nextLease st\<rparr>, snd (lease_grant (leaseTTL r) st))"
  by (simp add: Registry_def lease_grant_def)

lemma Registry_put_ok:
  assumes "wf_store st" "\<not> closed (client r)" "\<not> fails RpcGrant" "\<not> fails RpcPut"
    and "Registry fails uuid service r st = (err, r', st')"
  shows "store_put (Name service @ ''-'' @ uuid) (Addr service) (nextLease st)
           (snd (lease_grant (leaseTTL r) st)) = Inr st'
         \<and> leaseID r' = nextLease st \<and> closed (client r') = closed (client r)"
proof -
  let ?st1 = "snd (lease_grant (leaseTTL r) st)"
  have live: "nextLease st \<in> set (leases ?st1)" by (simp add: lease_grant_def)
  obtain st2 where p: "store_put (Name service @ ''-'' @ uuid) (Addr service) (nextLease st) ?st1 = Inr st2"
    using store_put_live[OF live] by blast
  show ?thesis using assms(2-5) p
    by (auto simp: Registry_def lease_grant_def Let_def split: if_splits)
qed

lemma wf_Registry:
  assumes "wf_store st" and "Registry fails uuid service r st = (err, r', st')"
  shows "wf_store st'"
proof (cases "closed (client r) \<or> fails RpcGrant")
  case True
  then show ?thesis using assms by (simp add: Registry_grant_fails)
next
  case False
  note ng = this
  show ?thesis
  proof (cases "fails RpcPut")
    case True
    then show ?thesis using ng assms wf_lease_grant[OF assms(1)] by (auto simp: Registry_put_fails)
  next
    case False
    then have "store_put (Name service @ ''-'' @ uuid) (Addr service) (nextLease st)
           (snd (lease_grant (leaseTTL r) st)) = Inr st'"
      using Registry_put_ok[OF assms(1) _ _ _ assms(2)] ng by simp
    then show ?thesis using wf_store_put wf_lease_grant[OF assms(1)] by blast
  qed
qed

text \<open>
  Claim C6, as the code has it. A failed grant leaves the registry and the store as they
  were: no record and no lease. When the put fails after the grant succeeded, \<open>Registry\<close>
  returns the error and writes no record, but it does not revoke the lease: the lease it
  was just granted stays live, is recorded in \<open>leaseID\<close>, has no record and is not
  renewed. Whatever the outcome, no record is left bound to a lease that is not live.
\<close>

theorem Registry_failure_outcome:
  assumes "wf_store st" and "Registry fails uuid service r st = (err, r', st')"
  shows "(closed (client r) \<or> fails RpcGrant \<longrightarrow> err = Some ErrConn \<and> r' = r \<and> st' = st) \<and>
         (\<not> closed (client r) \<and> \<not> fails RpcGrant \<and> fails RpcPut \<longrightarrow>
            err = Some ErrConn \<and> kvs st' = kvs st \<and>
            leaseID r' = nextLease st \<and> leaseID r' \<notin> set (leases st) \<and>
            leases st' = leaseID r' # leases st \<and>
            bound_keys (leaseID r') st' = [] \<and>
            client r' = client r \<and> leaseKeepAliveRespCh r' = leaseKeepAliveRespCh r) \<and>
         (\<forall>(k, e) \<in> set (kvs st'). Lease e \<noteq> NoLease \<longrightarrow> Lease e \<in> set (leases st'))"
proof -
  have g: "closed (client r) \<or> fails RpcGrant \<longrightarrow> err = Some ErrConn \<and> r' = r \<and> st' = st"
    using assms(2) by (auto simp: Registry_grant_fails)
  have fresh: "nextLease st \<notin> set (leases st)" using assms(1) by (auto simp: wf_store_def)
  have "\<forall>(k, e) \<in> set (kvs st). Lease e \<noteq> nextLease st"
    using assms(1) by (fastforce simp: wf_store_def NoLease_def)
  then have "filter (\<lambda>(k, e). Lease e = nextLease st) (kvs st) = []"
    by (auto simp: filter_empty_conv)
  then have nb: "bound_keys (nextLease st) (snd (lease_grant (leaseTTL r) st)) = []"
    by (simp add: bound_keys_def lease_grant_def)
  have p: "\<not> closed (client r) \<and> \<not> fails RpcGrant \<and> fails RpcPut \<longrightarrow>
            err = Some ErrConn \<and> kvs st' = kvs st \<and>
            leaseID r' = nextLease st \<and> leaseID r' \<notin> set (leases st) \<and>
            leases st' = leaseID r' # leases st \<and>
            bound_keys (leaseID r') st' = [] \<and>
            client r' = client r \<and> leaseKeepAliveRespCh r' = leaseKeepAliveRespCh r"
    using assms(2) fresh nb by (auto simp: Registry_put_fails lease_grant_def)
  have d: "\<forall>(k, e) \<in> set (kvs st'). Lease e \<noteq> NoLease \<longrightarrow> Lease e \<in> set (leases st')"
    using wf_Registry[OF assms] by (auto simp: wf_store_def)
  from g p d show ?thesis by blast
qed

text \<open>The theorem of C6 at the run where the put fails on a new store.\<close>

theorem Registry_failure_outcome_witness:
  "wf_store new_store \<and>
   Registry fail_put ''u1'' \<lparr>Name = ''svc'', Addr = ''host:1''\<rparr> registry0 new_store =
     (Some ErrConn, registry0\<lparr>leaseID := 1\<rparr>, new_store\<lparr>leases := [1], nextLease := 2\<rparr>) \<and>
   bound_keys 1 (new_store\<lparr>leases := [1], nextLease := 2\<rparr>) = []"
proof -
  have w: "wf_store new_store" by (simp add: wf_store_def new_store_def)
  have e: "Registry fail_put ''u1'' \<lparr>Name = ''svc'', Addr = ''host:1''\<rparr> registry0 new_store =
     (Some ErrConn, registry0\<lparr>leaseID := 1\<rparr>, new_store\<lparr>leases := [1], nextLease := 2\<rparr>)"
    by (simp add: Registry_def fail_put_def registry0_def new_store_def lease_grant_def)
  show ?thesis
    using Registry_failure_outcome[OF w e] w e
    by (simp add: fail_put_def registry0_def new_store_def)
qed

text \<open>
  Claim C6 as stated fails: after a failed put the lease granted by the same call is still
  live in the store, and no record is bound to it.
\<close>

theorem Registry_put_failure_leaks_lease:
  "fst (Registry fail_put ''u1'' \<lparr>Name = ''svc'', Addr = ''host:1''\<rparr> registry0 new_store)
     = Some ErrConn \<and>
   leaseID (fst (snd (Registry fail_put ''u1'' \<lparr>Name = ''svc'', Addr = ''host:1''\<rparr> registry0 new_store)))
     \<in> set (leases (snd (snd (Registry fail_put ''u1'' \<lparr>Name = ''svc'', Addr = ''host:1''\<rparr> registry0 new_store)))) \<and>
   bound_keys
     (leaseID (fst (snd (Registry fail_put ''u1'' \<lparr>Name = ''svc'', Addr = ''host:1''\<rparr> registry0 new_store))))
     (snd (snd (Registry fail_put ''u1'' \<lparr>Name = ''svc'', Addr = ''host:1''\<rparr> registry0 new_store))) = []"
  by (simp add: Registry_def fail_put_def registry0_def new_store_def lease_grant_def bound_keys_def)

section \<open>Properties of the discovery and of repeated registration\<close>

lemma set_store_get_prefix:
  "distinct (map fst (kvs st)) \<Longrightarrow>
   set (store_get_prefix name st) = {(k, e). lookup k st = Some e \<and> prefix name k}"
  by (auto simp: store_get_prefix_def lookup_iff)

lemma distinct_store_get_prefix:
  "distinct (map fst (kvs st)) \<Longrightarrow> distinct (store_get_prefix name st)"
  by (simp add: store_get_prefix_def distinct_map_filter distinct_filter distinct_map[THEN iffD1, THEN conjunct1])




text \<open>
  Claim C8. \<open>GetServiceAddr\<close> reads the records whose key starts with the name. It
  returns the error "service not found" exactly when the read succeeds and yields no record.
  Otherwise, when the random source returns the index \<open>i\<close>, the result is the value
  of the \<open>i\<close>-th record read. The records read are pairwise different, so each of
  them is chosen by exactly one of the \<open>n\<close> values that \<open>rand.Intn(n)\<close> can
  take: a uniform index gives a uniform choice among the records.
\<close>

theorem GetServiceAddr_spec:
  assumes "wf_store st"
  shows "(GetServiceAddr fails Intn name d st = Inl ErrServiceNotFound \<longleftrightarrow>
            \<not> closed (dclient d) \<and> \<not> fails RpcGet \<and> store_get_prefix name st = []) \<and>
         set (store_get_prefix name st) = {(k, e). lookup k st = Some e \<and> prefix name k} \<and>
         (\<not> closed (dclient d) \<and> \<not> fails RpcGet \<longrightarrow>
            (\<forall>i < length (store_get_prefix name st).
               Intn (length (store_get_prefix name st)) = i \<longrightarrow>
               GetServiceAddr fails Intn name d st = Inr (Value (snd (store_get_prefix name st ! i))))) \<and>
         (\<forall>i < length (store_get_prefix name st).
            {j. j < length (store_get_prefix name st) \<and>
                store_get_prefix name st ! j = store_get_prefix name st ! i} = {i})"
proof -
  have d: "distinct (map fst (kvs st))" using assms by (simp add: wf_store_def)
  have 1: "GetServiceAddr fails Intn name d st = Inl ErrServiceNotFound \<longleftrightarrow>
            \<not> closed (dclient d) \<and> \<not> fails RpcGet \<and> store_get_prefix name st = []"
    by (auto simp: GetServiceAddr_def Let_def)
  have 3: "\<not> closed (dclient d) \<and> \<not> fails RpcGet \<longrightarrow>
            (\<forall>i < length (store_get_prefix name st).
               Intn (length (store_get_prefix name st)) = i \<longrightarrow>
               GetServiceAddr fails Intn name d st = Inr (Value (snd (store_get_prefix name st ! i))))"
    by (auto simp: GetServiceAddr_def Let_def)
  have 4: "\<forall>i < length (store_get_prefix name st).
            {j. j < length (store_get_prefix name st) \<and>
                store_get_prefix name st ! j = store_get_prefix name st ! i} = {i}"
    using distinct_store_get_prefix[OF d, of name] by (auto simp: nth_eq_iff_index_eq)
  show ?thesis using 1 set_store_get_prefix[OF d] 3 4 by blast
qed

lemma two_registrations_eq:
  "two_registrations =
    (\<lparr>client = \<lparr>closed = False, keepAlives = [2, 1]\<rparr>, leaseID = 2,
     leaseTTL = 5, leaseKeepAliveRespCh = Some 2\<rparr>,
  \<lparr>kvs =
     [(''svc-u1'', \<lparr>Value = ''host:1'', CreateRevision = 2, Lease = 1\<rparr>),
      (''svc-u2'', \<lparr>Value = ''host:2'', CreateRevision = 3, Lease = 2\<rparr>)],
     revision = 3, leases = [2, 1], nextLease = 3,
     history =
       [\<lparr>Type = EventTypePut, EvKey = ''svc-u1'', EvValue = ''host:1''\<rparr>,
        \<lparr>Type = EventTypePut, EvKey = ''svc-u2'', EvValue = ''host:2''\<rparr>]\<rparr>)"
  by (simp add: two_registrations_def Registry_def no_fault_def registry0_def new_store_def
      lease_grant_def store_put_def NoLease_def lookup_def Let_def LeaseTTL_def)

lemma after_deregister_eq:
  "after_deregister =
    (None,
  \<lparr>client = \<lparr>closed = True, keepAlives = []\<rparr>, leaseID = 2, leaseTTL = 5,
     leaseKeepAliveRespCh = Some 2\<rparr>,
  \<lparr>kvs =
     [(''svc-u1'', \<lparr>Value = ''host:1'', CreateRevision = 2, Lease = 1\<rparr>)],
     revision = 4, leases = [1], nextLease = 3,
     history =
       [\<lparr>Type = EventTypePut, EvKey = ''svc-u1'', EvValue = ''host:1''\<rparr>,
        \<lparr>Type = EventTypePut, EvKey = ''svc-u2'', EvValue = ''host:2''\<rparr>,
        \<lparr>Type = EventTypeDelete, EvKey = ''svc-u2'', EvValue = []\<rparr>]\<rparr>)"
  by (simp add: after_deregister_def two_registrations_eq DeRegistry_def no_fault_def
      lease_revoke_def lease_expire_def bound_keys_def Let_def)

text \<open>
  Claim C7 at the run of the repository's test: two registrations by one registry, then
  \<open>DeRegistry\<close>. The second \<open>Registry\<close> call overwrote \<open>leaseID\<close>, so
  \<open>DeRegistry\<close> revokes the second lease only. It reports success and closes the
  client; the first record and its lease are still in the store, and the lookup of
  \<open>svc\<close> returns the address of the first registration.
\<close>

theorem DeRegistry_leaves_first_record:
  "fst after_deregister = None \<and>
   closed (client (fst (snd after_deregister))) \<and>
   map fst (kvs (snd (snd after_deregister))) = [''svc-u1''] \<and>
   leases (snd (snd after_deregister)) = [1] \<and>
   GetServiceAddr no_fault first_index ''svc'' discovery0 (snd (snd after_deregister)) = Inr ''host:1''"
  by (simp add: after_deregister_eq GetServiceAddr_def no_fault_def first_index_def discovery0_def
      store_get_prefix_def)

text \<open>The theorem of C8 after the two registrations, for a name with records and one without.\<close>

theorem GetServiceAddr_spec_witness:
  "wf_store (snd two_registrations) \<and>
   map fst (store_get_prefix ''svc'' (snd two_registrations)) = [''svc-u1'', ''svc-u2''] \<and>
   GetServiceAddr no_fault first_index ''svc'' discovery0 (snd two_registrations) = Inr ''host:1'' \<and>
   store_get_prefix ''web'' (snd two_registrations) = [] \<and>
   GetServiceAddr no_fault first_index ''web'' discovery0 (snd two_registrations) = Inl ErrServiceNotFound"
proof -
  have w: "wf_store (snd two_registrations)"
    by (simp add: two_registrations_eq wf_store_def NoLease_def)
  have g: "store_get_prefix ''svc'' (snd two_registrations) =
     [(''svc-u1'', \<lparr>Value = ''host:1'', CreateRevision = 2, Lease = 1\<rparr>),
      (''svc-u2'', \<lparr>Value = ''host:2'', CreateRevision = 3, Lease = 2\<rparr>)]"
    by (simp add: two_registrations_eq store_get_prefix_def)
  have e: "store_get_prefix ''web'' (snd two_registrations) = []"
    by (simp add: two_registrations_eq store_get_prefix_def)
  show ?thesis
    using GetServiceAddr_spec[OF w, of no_fault first_index "''svc''" discovery0]
      GetServiceAddr_spec[OF w, of no_fault first_index "''web''" discovery0] w g e
    by (simp add: no_fault_def first_index_def discovery0_def)
qed

lemma Registry_record:
  assumes "wf_store st" "\<not> closed (client r)" "\<not> fails RpcGrant" "\<not> fails RpcPut"
    and "Registry fails uuid service r st = (err, r', st')"
  shows "leaseID r' = nextLease st \<and> leaseID r' \<notin> set (leases st) \<and>
         leases st' = leaseID r' # leases st \<and> nextLease st' = nextLease st + 1 \<and>
         \<not> closed (client r') \<and> wf_store st' \<and>
         map_option Value (lookup (Name service @ ''-'' @ uuid) st') = Some (Addr service) \<and>
         map_option Lease (lookup (Name service @ ''-'' @ uuid) st') = Some (leaseID r') \<and>
         (\<forall>k. k \<noteq> Name service @ ''-'' @ uuid \<longrightarrow> lookup k st' = lookup k st)"
proof -
  let ?st1 = "snd (lease_grant (leaseTTL r) st)"
  let ?k = "Name service @ ''-'' @ uuid"
  from Registry_put_ok[OF assms]
  have p: "store_put ?k (Addr service) (nextLease st) ?st1 = Inr st'"
    and l: "leaseID r' = nextLease st" and c: "closed (client r') = closed (client r)" by simp_all
  have fresh: "nextLease st \<notin> set (leases st)" using assms(1) by (auto simp: wf_store_def)
  have o: "leases st' = nextLease st # leases st \<and> nextLease st' = nextLease st + 1"
    using store_put_other[OF p] by (simp add: lease_grant_def)
  have lk: "\<And>k'. lookup k' st' = (if k' = ?k then Some \<lparr>Value = Addr service,
       CreateRevision = (case lookup ?k ?st1 of None \<Rightarrow> revision ?st1 + 1 | Some e \<Rightarrow> CreateRevision e),
       Lease = nextLease st\<rparr> else lookup k' st)"
    using lookup_store_put[OF p] by simp
  show ?thesis using l c fresh o lk wf_Registry[OF assms(1,5)] assms(2) by simp
qed

text \<open>
  Claim C9. A \<open>Registry\<close> call whose grant and put succeed writes one record and
  nothing else: the key is the service name, a dash and the new suffix, the value is the
  address, and the record is bound to the lease granted by that call. Two such calls for the
  same service name with different suffixes give two records with different keys, both
  starting with the service name, bound to two different live leases; the end of either
  lease leaves the other record in place.
\<close>

theorem Registry_independent_records:
  assumes "wf_store st" and "\<not> closed (client r)"
    and "\<not> fails1 RpcGrant" and "\<not> fails1 RpcPut"
    and "\<not> fails2 RpcGrant" and "\<not> fails2 RpcPut"
    and "Registry fails1 uuid1 service1 r st = (err1, r1, st1)"
    and "Registry fails2 uuid2 service2 r1 st1 = (err2, r2, st2)"
    and "Name service1 = Name service2" and "uuid1 \<noteq> uuid2"
  shows "(\<forall>k. k \<noteq> Name service1 @ ''-'' @ uuid1 \<longrightarrow> lookup k st1 = lookup k st) \<and>
         (\<forall>k. k \<noteq> Name service2 @ ''-'' @ uuid2 \<longrightarrow> lookup k st2 = lookup k st1) \<and>
         Name service1 @ ''-'' @ uuid1 \<noteq> Name service2 @ ''-'' @ uuid2 \<and>
         prefix (Name service1) (Name service1 @ ''-'' @ uuid1) \<and>
         prefix (Name service1) (Name service2 @ ''-'' @ uuid2) \<and>
         map_option Value (lookup (Name service1 @ ''-'' @ uuid1) st2) = Some (Addr service1) \<and>
         map_option Lease (lookup (Name service1 @ ''-'' @ uuid1) st2) = Some (leaseID r1) \<and>
         map_option Value (lookup (Name service2 @ ''-'' @ uuid2) st2) = Some (Addr service2) \<and>
         map_option Lease (lookup (Name service2 @ ''-'' @ uuid2) st2) = Some (leaseID r2) \<and>
         leaseID r1 \<noteq> leaseID r2 \<and> leaseID r1 \<in> set (leases st2) \<and> leaseID r2 \<in> set (leases st2) \<and>
         lookup (Name service2 @ ''-'' @ uuid2) (lease_expire (leaseID r1) st2) =
           lookup (Name service2 @ ''-'' @ uuid2) st2 \<and>
         lookup (Name service1 @ ''-'' @ uuid1) (lease_expire (leaseID r2) st2) =
           lookup (Name service1 @ ''-'' @ uuid1) st2"
proof -
  let ?k1 = "Name service1 @ ''-'' @ uuid1" and ?k2 = "Name service2 @ ''-'' @ uuid2"
  note a = Registry_record[OF assms(1,2,3,4,7)]
  then have w1: "wf_store st1" and c1: "\<not> closed (client r1)" by simp_all
  note b = Registry_record[OF w1 c1 assms(5,6,8)]
  have o1: "\<forall>k. k \<noteq> ?k1 \<longrightarrow> lookup k st1 = lookup k st" using a by blast
  have o2: "\<forall>k. k \<noteq> ?k2 \<longrightarrow> lookup k st2 = lookup k st1" using b by blast
  have ne: "?k1 \<noteq> ?k2" using assms(9,10) by simp
  have p1: "prefix (Name service1) ?k1" by simp
  have p2: "prefix (Name service1) ?k2" using assms(9) by simp
  have la: "leaseID r1 = nextLease st" "leases st1 = leaseID r1 # leases st"
    "nextLease st1 = nextLease st + 1" using a by simp_all
  have lb: "leaseID r2 = nextLease st1" "leases st2 = leaseID r2 # leases st1" using b by simp_all
  have l12: "leaseID r1 \<noteq> leaseID r2" using la lb by simp
  have live1: "leaseID r1 \<in> set (leases st2)" using la lb by simp
  have live2: "leaseID r2 \<in> set (leases st2)" using lb by simp
  have k1: "lookup ?k1 st2 = lookup ?k1 st1" using o2 ne by simp
  have "map_option Value (lookup ?k1 st1) = Some (Addr service1)" using a by blast
  then have v1: "map_option Value (lookup ?k1 st2) = Some (Addr service1)" by (simp only: k1)
  have "map_option Lease (lookup ?k1 st1) = Some (leaseID r1)" using a by blast
  then have b1: "map_option Lease (lookup ?k1 st2) = Some (leaseID r1)" by (simp only: k1)
  have v2: "map_option Value (lookup ?k2 st2) = Some (Addr service2)" using b by blast
  have b2: "map_option Lease (lookup ?k2 st2) = Some (leaseID r2)" using b by blast
  have d2: "distinct (map fst (kvs st2))" using b by (simp add: wf_store_def)
  obtain e1 where e1: "lookup ?k1 st2 = Some e1" "Lease e1 = leaseID r1"
    using b1 by auto
  obtain e2 where e2: "lookup ?k2 st2 = Some e2" "Lease e2 = leaseID r2"
    using b2 by auto
  have x1: "lookup ?k2 (lease_expire (leaseID r1) st2) = lookup ?k2 st2"
    using lookup_lease_expire[OF d2 live1, of ?k2] e2 l12 by simp
  have x2: "lookup ?k1 (lease_expire (leaseID r2) st2) = lookup ?k1 st2"
    using lookup_lease_expire[OF d2 live2, of ?k1] e1 l12 by simp
  from o1 o2 ne p1 p2 v1 b1 v2 b2 l12 live1 live2 x1 x2 show ?thesis by blast
qed

text \<open>The theorem of C9 at the two registrations of \<open>svc\<close>.\<close>

theorem Registry_independent_records_witness:
  "wf_store new_store \<and>
   map fst (kvs (snd two_registrations)) = [''svc-u1'', ''svc-u2''] \<and>
   lookup ''svc-u1'' (snd two_registrations) = Some \<lparr>Value = ''host:1'', CreateRevision = 2, Lease = 1\<rparr> \<and>
   lookup ''svc-u2'' (snd two_registrations) = Some \<lparr>Value = ''host:2'', CreateRevision = 3, Lease = 2\<rparr> \<and>
   lookup ''svc-u2'' (lease_expire 1 (snd two_registrations)) =
     Some \<lparr>Value = ''host:2'', CreateRevision = 3, Lease = 2\<rparr>"
proof -
  have w: "wf_store new_store" by (rule wf_new_store)
  have c: "\<not> closed (client registry0)" by (simp add: registry0_def)
  have n: "\<not> no_fault RpcGrant" "\<not> no_fault RpcPut" by (simp_all add: no_fault_def)
  obtain err1 r1 st1 where
    1: "Registry no_fault ''u1'' \<lparr>Name = ''svc'', Addr = ''host:1''\<rparr> registry0 new_store = (err1, r1, st1)"
    by (metis prod_cases3)
  obtain err2 r2 st2 where
    2: "Registry no_fault ''u2'' \<lparr>Name = ''svc'', Addr = ''host:2''\<rparr> r1 st1 = (err2, r2, st2)"
    by (metis prod_cases3)
  have t: "st2 = snd two_registrations" using 1 2 by (simp add: two_registrations_def)
  have n1: "Name \<lparr>Name = ''svc'', Addr = ''host:1''\<rparr> = Name \<lparr>Name = ''svc'', Addr = ''host:2''\<rparr>"
    by simp
  have u: "''u1'' \<noteq> ''u2''" by simp
  have s: "snd two_registrations = \<lparr>kvs =
     [(''svc-u1'', \<lparr>Value = ''host:1'', CreateRevision = 2, Lease = 1\<rparr>),
      (''svc-u2'', \<lparr>Value = ''host:2'', CreateRevision = 3, Lease = 2\<rparr>)],
     revision = 3, leases = [2, 1], nextLease = 3,
     history =
       [\<lparr>Type = EventTypePut, EvKey = ''svc-u1'', EvValue = ''host:1''\<rparr>,
        \<lparr>Type = EventTypePut, EvKey = ''svc-u2'', EvValue = ''host:2''\<rparr>]\<rparr>"
    by (simp add: two_registrations_eq)
  have x: "lookup ''svc-u2'' (lease_expire 1 (snd two_registrations)) =
     Some \<lparr>Value = ''host:2'', CreateRevision = 3, Lease = 2\<rparr>"
    by (simp add: s lookup_def lease_expire_def Let_def)
  show ?thesis
    using Registry_independent_records[OF w c n n 1 2 n1 u] w x
    by (simp add: s lookup_def)
qed

text \<open>
  Claim C10. \<open>GetServiceAddr\<close> matches keys by prefix alone. When a service is
  registered under a name of which \<open>short\<close> is a proper prefix, its record is among
  those read for \<open>short\<close>, and for some value of the random index the address
  registered under the longer name is what the lookup of \<open>short\<close> returns.
\<close>

theorem GetServiceAddr_prefix_collision:
  assumes "wf_store st" and "\<not> closed (client r)" and "\<not> fails RpcGrant" and "\<not> fails RpcPut"
    and "Registry fails uuid service r st = (err, r', st')"
    and "strict_prefix short (Name service)"
    and "\<not> closed (dclient d)" and "\<not> dfails RpcGet"
  shows "Name service @ ''-'' @ uuid \<in> fst ` set (store_get_prefix short st') \<and>
         (\<exists>i < length (store_get_prefix short st').
            GetServiceAddr dfails (\<lambda>n. i) short d st' = Inr (Addr service))"
proof -
  let ?k = "Name service @ ''-'' @ uuid"
  note a = Registry_record[OF assms(1-5)]
  then obtain e where e: "lookup ?k st' = Some e" "Value e = Addr service" by auto
  have d: "distinct (map fst (kvs st'))" using a by (simp add: wf_store_def)
  have p: "prefix short ?k" using assms(6) by (simp add: strict_prefix_def)
  have m: "(?k, e) \<in> set (store_get_prefix short st')"
    using set_store_get_prefix[OF d, of short] e p by simp
  then obtain i where i: "i < length (store_get_prefix short st')" "store_get_prefix short st' ! i = (?k, e)"
    by (auto simp: in_set_conv_nth)
  have "GetServiceAddr dfails (\<lambda>n. i) short d st' = Inr (Addr service)"
    using i e assms(7,8) by (auto simp: GetServiceAddr_def Let_def)
  then show ?thesis using m i by force
qed



text \<open>The theorem of C10 at the names \<open>order\<close> and \<open>order_service\<close>.\<close>

theorem GetServiceAddr_prefix_collision_witness:
  "wf_store new_store \<and> strict_prefix ''order'' ''order_service'' \<and>
   GetServiceAddr no_fault first_index ''order'' discovery0 (snd (snd order_registration))
     = Inr ''localhost:8080''"
proof -
  have w: "wf_store new_store" by (rule wf_new_store)
  have c: "\<not> closed (client registry0)" by (simp add: registry0_def)
  have n: "\<not> no_fault RpcGrant" "\<not> no_fault RpcPut" "\<not> no_fault RpcGet" by (simp_all add: no_fault_def)
  have s: "strict_prefix ''order'' (Name \<lparr>Name = ''order_service'', Addr = ''localhost:8080''\<rparr>)" by simp
  have dc: "\<not> closed (dclient discovery0)" by (simp add: discovery0_def)
  have r: "Registry no_fault ''u1'' \<lparr>Name = ''order_service'', Addr = ''localhost:8080''\<rparr> registry0 new_store
     = (fst order_registration, fst (snd order_registration), snd (snd order_registration))"
    by (simp add: order_registration_def)
  have g: "store_get_prefix ''order'' (snd (snd order_registration)) =
      [(''order_service-u1'', \<lparr>Value = ''localhost:8080'', CreateRevision = 2, Lease = 1\<rparr>)]"
    by (simp add: order_registration_def Registry_def no_fault_def registry0_def new_store_def
      lease_grant_def store_put_def NoLease_def lookup_def Let_def store_get_prefix_def)
  have f: "(\<lambda>n. 0) = first_index" by (simp add: first_index_def fun_eq_iff)
  show ?thesis
    using GetServiceAddr_prefix_collision[of new_store registry0 no_fault "''u1''"
        "\<lparr>Name = ''order_service'', Addr = ''localhost:8080''\<rparr>" "fst order_registration"
        "fst (snd order_registration)" "snd (snd order_registration)" "''order''" discovery0 no_fault,
        OF w c n(1,2) r s dc n(3)] w g f by simp
qed

end
